theory Spec2Isabelle
  imports Main "HOL-Library.Word" "HOL-Library.Finite_Map"
begin

unbundle bit_operations_syntax

section \<open>The signature cache with xorshift eviction (txscript/sigcache_xor_eviction.go)\<close>

subsection \<open>Data model\<close>

type_synonym byte = "8 word"
type_synonym uint64 = "64 word"

text \<open>
  \<open>wire.ShaHash\<close> is the array type \<open>[HashSize]byte\<close> with \<open>HashSize = 32\<close>. It is
  modelled as the list of its bytes, first byte first; \<open>zeroEntry\<close> is the zero value of
  the array type, which the scan of \<open>Add\<close> declares with \<open>var zeroEntry wire.ShaHash\<close>.
\<close>

type_synonym ShaHash = "byte list"

definition HashSize :: nat where
  "HashSize = 32"

definition zeroEntry :: ShaHash where
  "zeroEntry = replicate HashSize 0"

text \<open>
  Modelled from the spec: the struct \<open>sigCacheEntry\<close> is declared in a file of the package
  that is not among the sources. \<open>Add\<close> builds it as \<open>sigCacheEntry{sig, pubKey}\<close> and
  \<open>Exists\<close> reads its fields \<open>sig\<close> and \<open>pubKey\<close>; the spec's CacheEntry "owns a
  Signature value and a PublicKey value". The types of signatures and public keys belong to
  the btcec library and stay type parameters.
\<close>

record ('sig, 'pk) sigCacheEntry =
  sig :: 'sig
  pubKey :: 'pk

text \<open>
  The struct \<open>SigCacheXor\<close>. The Go map is a finite map; the generator behind the interface
  \<open>xorshift.XorShift\<close> is a value of a type parameter \<open>'g\<close>, its state. The embedded
  \<open>sync.RWMutex\<close> has no field here: the model is sequential.
\<close>

record ('sig, 'pk, 'g) SigCacheXor =
  validSigs :: "(ShaHash, ('sig, 'pk) sigCacheEntry) fmap"
  maxEntries :: "64 word"
  xorShift :: 'g

datatype error = Error string

subsection \<open>encoding/binary, big-endian\<close>

text \<open>
  \<open>binary.BigEndian.Uint64(b)\<close> reads \<open>b[0..7]\<close>, most significant byte first.
\<close>

definition Uint64 :: "byte list \<Rightarrow> uint64" where
  "Uint64 b =
     ucast (b ! 7) OR push_bit 8 (ucast (b ! 6)) OR push_bit 16 (ucast (b ! 5)) OR
     push_bit 24 (ucast (b ! 4)) OR push_bit 32 (ucast (b ! 3)) OR push_bit 40 (ucast (b ! 2)) OR
     push_bit 48 (ucast (b ! 1)) OR push_bit 56 (ucast (b ! 0))"

text \<open>
  \<open>binary.BigEndian.PutUint64(a[off:], v)\<close> writes the eight bytes of \<open>v\<close> into the
  array \<open>a\<close> from index \<open>off\<close> on, most significant byte first. (Go panics when fewer
  than eight bytes are left; \<open>Add\<close> calls it with \<open>off\<close> in 0, 8, 16, 24 on a 32-byte
  array.)
\<close>

definition PutUint64 :: "byte list \<Rightarrow> nat \<Rightarrow> uint64 \<Rightarrow> byte list" where
  "PutUint64 a off v =
     a[off := ucast (drop_bit 56 v), off + 1 := ucast (drop_bit 48 v),
       off + 2 := ucast (drop_bit 40 v), off + 3 := ucast (drop_bit 32 v),
       off + 4 := ucast (drop_bit 24 v), off + 5 := ucast (drop_bit 16 v),
       off + 6 := ucast (drop_bit 8 v), off + 7 := ucast v]"

subsection \<open>bytes.Compare\<close>

text \<open>
  \<open>bytes.Compare(a, b)\<close> compares two byte slices lexicographically and returns
  \<open>-1\<close>, \<open>0\<close> or \<open>1\<close>; a proper prefix is smaller.
\<close>

fun bytes_Compare :: "byte list \<Rightarrow> byte list \<Rightarrow> int" where
  "bytes_Compare [] [] = 0"
| "bytes_Compare [] (y # ys) = - 1"
| "bytes_Compare (x # xs) [] = 1"
| "bytes_Compare (x # xs) (y # ys) =
     (if x < y then - 1 else if y < x then 1 else bytes_Compare xs ys)"

subsection \<open>NewSigCacheXor\<close>

text \<open>
  \<open>crypto/rand.Read\<close> and \<open>xorshift.NewXorShift128Plus\<close> are library functions and are
  parameters. \<open>rand_Read b\<close> is the outcome of \<open>rand.Read(b)\<close>: the buffer after the call,
  the number of bytes read and the error, \<open>None\<close> for \<open>nil\<close>. The constructor ignores the
  count and returns \<open>(nil, err)\<close> on an error.
\<close>

definition NewSigCacheXor ::
  "(byte list \<Rightarrow> byte list \<times> nat \<times> error option) \<Rightarrow> (uint64 \<Rightarrow> 'g) \<Rightarrow> 64 word \<Rightarrow>
     error + ('sig, 'pk, 'g) SigCacheXor" where
  "NewSigCacheXor rand_Read NewXorShift128Plus maxEntries' =
     (case rand_Read (replicate 8 0) of
        (seed, n, Some err) \<Rightarrow> Inl err
      | (seed, n, None) \<Rightarrow>
          Inr \<lparr>validSigs = fmempty, maxEntries = maxEntries',
               xorShift = NewXorShift128Plus (Uint64 seed)\<rparr>)"

subsection \<open>Exists\<close>

text \<open>
  \<open>Equals\<close> of \<open>btcec.PublicKey\<close> and of \<open>btcec.Signature\<close> are the parameters
  \<open>pkEquals\<close> and \<open>sigEquals\<close>. The method has a pointer receiver, so the model returns
  the cache beside the result.
\<close>

definition Exists ::
  "('pk \<Rightarrow> 'pk \<Rightarrow> bool) \<Rightarrow> ('sig \<Rightarrow> 'sig \<Rightarrow> bool) \<Rightarrow> ('sig, 'pk, 'g) SigCacheXor \<Rightarrow>
     ShaHash \<Rightarrow> 'sig \<Rightarrow> 'pk \<Rightarrow> bool \<times> ('sig, 'pk, 'g) SigCacheXor" where
  "Exists pkEquals sigEquals s sigHash sg pk =
     (case fmlookup (validSigs s) sigHash of
        Some entry \<Rightarrow> (pkEquals (pubKey entry) pk \<and> sigEquals (sig entry) sg, s)
      | None \<Rightarrow> (False, s))"

subsection \<open>Add\<close>

text \<open>
  The loop \<open>for i := 0; i < 4; i++\<close> that fills \<open>randHashBytes\<close>: each round draws one
  value with \<open>Next()\<close> and stores it big-endian at \<open>randHashBytes[i*8:]\<close>. \<open>Next'\<close> is the
  generator's method, from a state to the value drawn and the state after.
\<close>

function randLoop ::
  "('g \<Rightarrow> uint64 \<times> 'g) \<Rightarrow> nat \<Rightarrow> byte list \<Rightarrow> 'g \<Rightarrow> byte list \<times> 'g" where
  "randLoop Next' i randHashBytes g =
     (if i < 4 then
        (case Next' g of (randInt, g') \<Rightarrow>
           randLoop Next' (i + 1) (PutUint64 randHashBytes (i * 8) randInt) g')
      else (randHashBytes, g))"
  by pat_completeness auto
termination
  by (relation "measure (\<lambda>(Next', i, randHashBytes, g). 4 - i)") auto

declare randLoop.simps [simp del]

text \<open>
  The loop \<open>for sigEntry := range s.validSigs\<close>. A range over a Go map visits every key
  once, in an order the language leaves open; the list \<open>ks\<close> is that order, and
  \<open>range_order\<close> says that a list is one the statement can produce for a map. The loop
  keeps \<open>foundEntry\<close>, which starts as the zero value, and stops at the first key that
  compares greater than the random hash.
\<close>

fun scanLoop :: "byte list \<Rightarrow> ShaHash list \<Rightarrow> ShaHash \<Rightarrow> ShaHash" where
  "scanLoop randHashBytes [] foundEntry = foundEntry"
| "scanLoop randHashBytes (sigEntry # ks) foundEntry =
     (let foundEntry' = (if foundEntry = zeroEntry then sigEntry else foundEntry)
      in if bytes_Compare sigEntry randHashBytes > 0 then sigEntry
         else scanLoop randHashBytes ks foundEntry')"

definition range_order :: "'k list \<Rightarrow> ('k, 'v) fmap \<Rightarrow> bool" where
  "range_order ks m = (distinct ks \<and> fset_of_list ks = fmdom m)"

text \<open>
  The body of the \<open>if\<close> of lines 91 to 116, the eviction: the random hash, the scan, the
  \<open>delete\<close>.
\<close>

definition evict ::
  "('g \<Rightarrow> uint64 \<times> 'g) \<Rightarrow> ShaHash list \<Rightarrow> ('sig, 'pk, 'g) SigCacheXor \<Rightarrow>
     ('sig, 'pk, 'g) SigCacheXor" where
  "evict Next' ks s =
     (case randLoop Next' 0 (replicate HashSize 0) (xorShift s) of
        (randHashBytes, g') \<Rightarrow>
          (let foundEntry = scanLoop randHashBytes ks zeroEntry
           in s\<lparr>validSigs := fmdrop foundEntry (validSigs s), xorShift := g'\<rparr>))"

text \<open>
  \<open>entries s\<close> is \<open>len(s.validSigs)\<close>, the number of keys. It is a Go \<open>int\<close> that is
  never negative, so \<open>len(s.validSigs)+1\<close> does not overflow and its conversion to
  \<open>uint\<close> is the same number; the comparison with \<open>maxEntries\<close> is the comparison of
  the two numbers.
\<close>

definition entries :: "('sig, 'pk, 'g) SigCacheXor \<Rightarrow> nat" where
  "entries s = fcard (fmdom (validSigs s))"

definition Add ::
  "('g \<Rightarrow> uint64 \<times> 'g) \<Rightarrow> ShaHash list \<Rightarrow> ('sig, 'pk, 'g) SigCacheXor \<Rightarrow>
     ShaHash \<Rightarrow> 'sig \<Rightarrow> 'pk \<Rightarrow> ('sig, 'pk, 'g) SigCacheXor" where
  "Add Next' ks s sigHash sg pk =
     (if maxEntries s \<le> 0 then s
      else
        (let s' = (if unat (maxEntries s) < entries s + 1
                   then evict Next' ks s else s)
         in s'\<lparr>validSigs := fmupd sigHash \<lparr>sig = sg, pubKey = pk\<rparr> (validSigs s')\<rparr>))"

subsection \<open>Sequences of calls\<close>

text \<open>
  A call of \<open>Add\<close> with the order in which its range statement would visit the keys:
  the order, the hash, the signature and the public key. \<open>AddAll\<close> runs a list of
  calls one after the other; \<open>run_ok\<close> says that every call's order is a range order of
  the map the call finds.
\<close>

type_synonym ('sig, 'pk) call = "ShaHash list \<times> ShaHash \<times> 'sig \<times> 'pk"

fun AddAll ::
  "('g \<Rightarrow> uint64 \<times> 'g) \<Rightarrow> ('sig, 'pk, 'g) SigCacheXor \<Rightarrow> ('sig, 'pk) call list \<Rightarrow>
     ('sig, 'pk, 'g) SigCacheXor" where
  "AddAll Next' s [] = s"
| "AddAll Next' s ((ks, sigHash, sg, pk) # cs) = AddAll Next' (Add Next' ks s sigHash sg pk) cs"

fun run_ok ::
  "('g \<Rightarrow> uint64 \<times> 'g) \<Rightarrow> ('sig, 'pk, 'g) SigCacheXor \<Rightarrow> ('sig, 'pk) call list \<Rightarrow> bool" where
  "run_ok Next' s [] = True"
| "run_ok Next' s ((ks, sigHash, sg, pk) # cs) =
     (range_order ks (validSigs s) \<and> run_ok Next' (Add Next' ks s sigHash sg pk) cs)"

subsection \<open>Notions used in the statements\<close>

text \<open>The eight bytes of a 64-bit value, most significant first.\<close>

definition be64 :: "uint64 \<Rightarrow> byte list" where
  "be64 v = [ucast (drop_bit 56 v), ucast (drop_bit 48 v), ucast (drop_bit 40 v),
             ucast (drop_bit 32 v), ucast (drop_bit 24 v), ucast (drop_bit 16 v),
             ucast (drop_bit 8 v), ucast v]"

text \<open>
  \<open>evicts s\<close>: a call of \<open>Add\<close> on \<open>s\<close> passes the guard of line 85 and enters the
  \<open>if\<close> of line 91.
\<close>

definition evicts :: "('sig, 'pk, 'g) SigCacheXor \<Rightarrow> bool" where
  "evicts s = (\<not> maxEntries s \<le> 0 \<and> unat (maxEntries s) < entries s + 1)"

text \<open>
  The random hash that an eviction on \<open>s\<close> draws, and the value of \<open>foundEntry\<close> when
  its scan ends: the key that \<open>delete\<close> is called with.
\<close>

definition randHash :: "('g \<Rightarrow> uint64 \<times> 'g) \<Rightarrow> ('sig, 'pk, 'g) SigCacheXor \<Rightarrow> byte list" where
  "randHash Next' s = fst (randLoop Next' 0 (replicate HashSize 0) (xorShift s))"

definition victim ::
  "('g \<Rightarrow> uint64 \<times> 'g) \<Rightarrow> ShaHash list \<Rightarrow> ('sig, 'pk, 'g) SigCacheXor \<Rightarrow> ShaHash" where
  "victim Next' ks s = scanLoop (randHash Next' s) ks zeroEntry"

subsection \<open>Test doubles\<close>

text \<open>
  A generator for tests: its state counts the draws, and every draw returns the largest
  value, so that the random hash is 32 bytes \<open>0xff\<close> and no key compares greater. An
  entropy source that delivers the bytes asked for, and one that fails. Hashes of one
  repeated byte.
\<close>

definition stubNext :: "uint64 \<Rightarrow> uint64 \<times> uint64" where
  "stubNext g = (- 1, g + 1)"

definition stubRead :: "byte list \<Rightarrow> byte list \<times> nat \<times> error option" where
  "stubRead b = (replicate (length b) 7, length b, None)"

definition failRead :: "byte list \<Rightarrow> byte list \<times> nat \<times> error option" where
  "failRead b = (b, 0, Some (Error ''unexpected EOF''))"

definition key :: "byte \<Rightarrow> ShaHash" where
  "key b = replicate HashSize b"

definition cache ::
  "(ShaHash \<times> nat \<times> nat) list \<Rightarrow> 64 word \<Rightarrow> (nat, nat, uint64) SigCacheXor" where
  "cache kvs n =
     \<lparr>validSigs = fmap_of_list (map (\<lambda>(k, sg, pk). (k, \<lparr>sig = sg, pubKey = pk\<rparr>)) kvs),
      maxEntries = n, xorShift = 0\<rparr>"

section \<open>Auxiliary facts\<close>

subsection \<open>The random hash\<close>

lemma randLoop_unfold:
  "randLoop N 0 b g =
     (case N g of (r0, g1) \<Rightarrow> case N g1 of (r1, g2) \<Rightarrow> case N g2 of (r2, g3) \<Rightarrow>
      case N g3 of (r3, g4) \<Rightarrow>
        (PutUint64 (PutUint64 (PutUint64 (PutUint64 b 0 r0) 8 r1) 16 r2) 24 r3, g4))"
  apply (subst randLoop.simps, simp split: prod.splits)
  apply (subst randLoop.simps, simp split: prod.splits)
  apply (subst randLoop.simps, simp split: prod.splits)
  apply (subst randLoop.simps, simp split: prod.splits)
  apply (subst randLoop.simps, simp split: prod.splits)
  done

lemma randLoop_state:
  "snd (randLoop N 0 b g) = snd (N (snd (N (snd (N (snd (N g)))))))"
  by (simp add: randLoop_unfold split: prod.splits)

lemma PutUint64_append:
  assumes "length p = off" and "length q = 8"
  shows "PutUint64 (p @ q @ r) off v = p @ be64 v @ r"
proof -
  obtain q0 q1 q2 q3 q4 q5 q6 q7 where q: "q = [q0, q1, q2, q3, q4, q5, q6, q7]"
    using assms(2) by (auto simp: length_Suc_conv eval_nat_numeral)
  show ?thesis
    using assms(1) by (simp add: q PutUint64_def be64_def list_update_append)
qed

lemma zero32:
  "replicate HashSize (0::byte) = replicate 8 0 @ replicate 8 0 @ replicate 8 0 @ replicate 8 0"
  by (simp add: HashSize_def flip: replicate_add)

lemma length_be64: "length (be64 v) = 8"
  by (simp add: be64_def)

lemma randLoop_bytes:
  assumes "N g = (r0, g1)" and "N g1 = (r1, g2)" and "N g2 = (r2, g3)" and "N g3 = (r3, g4)"
  shows "randLoop N 0 (replicate HashSize 0) g = (be64 r0 @ be64 r1 @ be64 r2 @ be64 r3, g4)"
proof -
  let ?z = "replicate 8 (0::byte)"
  have a: "PutUint64 ([] @ ?z @ (?z @ ?z @ ?z)) 0 r0 = [] @ be64 r0 @ (?z @ ?z @ ?z)"
    by (rule PutUint64_append) simp_all
  have b: "PutUint64 (be64 r0 @ ?z @ (?z @ ?z)) 8 r1 = be64 r0 @ be64 r1 @ (?z @ ?z)"
    by (rule PutUint64_append) (simp_all add: length_be64)
  have c: "PutUint64 ((be64 r0 @ be64 r1) @ ?z @ ?z) 16 r2 = (be64 r0 @ be64 r1) @ be64 r2 @ ?z"
    by (rule PutUint64_append) (simp_all add: length_be64)
  have d: "PutUint64 ((be64 r0 @ be64 r1 @ be64 r2) @ ?z @ []) 24 r3
             = (be64 r0 @ be64 r1 @ be64 r2) @ be64 r3 @ []"
    by (rule PutUint64_append) (simp_all add: length_be64)
  show ?thesis
    using a b c d by (simp add: randLoop_unfold assms zero32)
qed

text \<open>
  The random hash is the four values drawn one after the other, each as its eight
  big-endian bytes.
\<close>

lemma randHash_bytes:
  "randHash N s =
     be64 (fst (N (xorShift s))) @
     be64 (fst (N (snd (N (xorShift s))))) @
     be64 (fst (N (snd (N (snd (N (xorShift s))))))) @
     be64 (fst (N (snd (N (snd (N (snd (N (xorShift s)))))))))"
  unfolding randHash_def
  by (subst randLoop_bytes[OF surjective_pairing surjective_pairing surjective_pairing
        surjective_pairing]) simp

lemma length_randHash: "length (randHash N s) = HashSize"
  by (simp add: randHash_bytes length_be64 HashSize_def)

subsection \<open>The scan\<close>

lemma scanLoop_mem: "scanLoop r ks f \<in> insert f (set ks)"
  by (induction ks arbitrary: f) (auto simp: Let_def)

lemma scanLoop_mem0: "ks \<noteq> [] \<Longrightarrow> scanLoop r ks zeroEntry \<in> set ks"
  using scanLoop_mem[of r "tl ks" "hd ks"] by (cases ks) (auto simp: Let_def)

text \<open>
  What the scan returns: the first key of the order that compares greater than the random
  hash; when there is none, the first key of the order that is not the zero hash; when
  there is none either, the zero hash.
\<close>

lemma scanLoop_find:
  "scanLoop r ks f =
     (case find (\<lambda>k. bytes_Compare k r > 0) ks of
        Some k \<Rightarrow> k
      | None \<Rightarrow> if f \<noteq> zeroEntry then f
                else (case find (\<lambda>k. k \<noteq> zeroEntry) ks of Some k \<Rightarrow> k | None \<Rightarrow> zeroEntry))"
  by (induction ks arbitrary: f) (auto simp: Let_def split: option.splits)

lemma bytes_Compare_zeros: "n \<le> length r \<Longrightarrow> bytes_Compare (replicate n 0) r \<le> 0"
proof (induction n arbitrary: r)
  case 0
  then show ?case by (cases r) auto
next
  case (Suc n)
  then show ?case by (cases r) auto
qed

lemma scanLoop_zero_first:
  "length r = HashSize \<Longrightarrow> scanLoop r (zeroEntry # ks) zeroEntry = scanLoop r ks zeroEntry"
  using bytes_Compare_zeros[of HashSize r] by (simp add: zeroEntry_def)

text \<open>
  A zero hash that the range statement visits first leaves no trace in the scan: the scan
  goes on as if it started at the next key, whatever the generator draws.
\<close>

lemma victim_zero_first: "victim N (zeroEntry # ks) s = victim N ks s"
  unfolding victim_def by (rule scanLoop_zero_first) (rule length_randHash)

subsection \<open>The eviction and the insert\<close>

lemma evict_fields:
  "validSigs (evict N ks s) = fmdrop (victim N ks s) (validSigs s)"
  "maxEntries (evict N ks s) = maxEntries s"
  "xorShift (evict N ks s) = snd (randLoop N 0 (replicate HashSize 0) (xorShift s))"
  by (simp_all add: evict_def victim_def randHash_def Let_def split: prod.splits)

lemma victim_in_dom:
  assumes "range_order ks (validSigs s)" and "0 < entries s"
  shows "victim N ks s |\<in>| fmdom (validSigs s)"
proof -
  have "ks \<noteq> []"
    using assms by (auto simp: range_order_def entries_def fcard_fempty)
  then have "victim N ks s \<in> set ks"
    unfolding victim_def by (rule scanLoop_mem0)
  moreover have "fset_of_list ks = fmdom (validSigs s)"
    using assms(1) by (simp add: range_order_def)
  ultimately show ?thesis
    by (metis fset_of_list_elem)
qed

lemma evicts_nonempty: "evicts s \<Longrightarrow> 0 < entries s"
  by (auto simp: evicts_def word_le_nat_alt)

lemma entries_evict:
  assumes "range_order ks (validSigs s)" and "0 < entries s"
  shows "entries (evict N ks s) = entries s - 1"
  using victim_in_dom[OF assms, of N]
  by (simp add: entries_def evict_fields)

lemma Add_unfold:
  "Add N ks s h sg pk =
    (if maxEntries s \<le> 0 then s
     else if evicts s
       then (evict N ks s)\<lparr>validSigs :=
              fmupd h \<lparr>sig = sg, pubKey = pk\<rparr> (validSigs (evict N ks s))\<rparr>
       else s\<lparr>validSigs := fmupd h \<lparr>sig = sg, pubKey = pk\<rparr> (validSigs s)\<rparr>)"
  by (simp add: Add_def evicts_def Let_def)

lemma maxEntries_Add: "maxEntries (Add N ks s h sg pk) = maxEntries s"
  by (simp add: Add_unfold evict_fields)

lemma entries_upd_le: "entries (s\<lparr>validSigs := fmupd h e (validSigs s)\<rparr>) \<le> entries s + 1"
  by (simp add: entries_def fcard_finsert_if)

lemma entries_Add_le:
  assumes "entries s \<le> unat (maxEntries s)" and "range_order ks (validSigs s)"
  shows "entries (Add N ks s h sg pk) \<le> unat (maxEntries s)"
proof (cases "maxEntries s \<le> 0")
  case True
  then show ?thesis using assms by (simp add: Add_unfold)
next
  case False
  show ?thesis
  proof (cases "evicts s")
    case True
    then have pos: "0 < entries s" by (rule evicts_nonempty)
    have "entries (evict N ks s) = entries s - 1"
      using assms(2) pos by (rule entries_evict)
    moreover have
      "entries ((evict N ks s)\<lparr>validSigs :=
          fmupd h \<lparr>sig = sg, pubKey = pk\<rparr> (validSigs (evict N ks s))\<rparr>)
        \<le> entries (evict N ks s) + 1"
      by (rule entries_upd_le)
    ultimately show ?thesis
      using False True pos assms(1) by (simp add: Add_unfold)
  next
    case nev: False
    have "entries (s\<lparr>validSigs := fmupd h \<lparr>sig = sg, pubKey = pk\<rparr> (validSigs s)\<rparr>)
        \<le> entries s + 1"
      by (rule entries_upd_le)
    then show ?thesis
      using False nev by (simp add: Add_unfold evicts_def)
  qed
qed

lemma AddAll_invariant:
  assumes "entries s \<le> unat (maxEntries s)" and "run_ok N s cs"
  shows "entries (AddAll N s cs) \<le> unat (maxEntries s) \<and>
         maxEntries (AddAll N s cs) = maxEntries s"
  using assms
proof (induction cs arbitrary: s)
  case Nil
  then show ?case by simp
next
  case (Cons c cs)
  obtain ks h sg pk where c: "c = (ks, h, sg, pk)" by (cases c) auto
  let ?s = "Add N ks s h sg pk"
  have "entries ?s \<le> unat (maxEntries ?s)"
    using Cons.prems c by (simp add: entries_Add_le maxEntries_Add)
  moreover have "run_ok N ?s cs" using Cons.prems c by simp
  ultimately have
    "entries (AddAll N ?s cs) \<le> unat (maxEntries ?s) \<and>
     maxEntries (AddAll N ?s cs) = maxEntries ?s"
    by (rule Cons.IH)
  then show ?case by (simp add: c maxEntries_Add)
qed

lemma run_ok_take: "run_ok N s cs \<Longrightarrow> run_ok N s (take n cs)"
proof (induction cs arbitrary: s n)
  case Nil
  then show ?case by simp
next
  case (Cons c cs)
  then show ?case by (cases n; cases c) auto
qed

lemma Add_zero: "maxEntries s = 0 \<Longrightarrow> Add N ks s h sg pk = s"
  by (simp add: Add_def)

lemma AddAll_zero: "maxEntries s = 0 \<Longrightarrow> AddAll N s cs = s"
  by (induction cs arbitrary: s) (auto simp: Add_zero)

text \<open>
  Adding a key that the map already holds, on a cache that evicts: the number of entries
  stays only when the scan happens to pick that very key.
\<close>

lemma entries_reinsert_full:
  assumes "evicts s" and "range_order ks (validSigs s)" and "h |\<in>| fmdom (validSigs s)"
  shows "entries (Add N ks s h sg pk) = (if victim N ks s = h then entries s else entries s - 1)"
proof -
  have pos: "0 < entries s" using assms(1) by (rule evicts_nonempty)
  have vin: "victim N ks s |\<in>| fmdom (validSigs s)"
    using assms(2) pos by (rule victim_in_dom)
  have nz: "\<not> maxEntries s \<le> 0" using assms(1) by (simp add: evicts_def)
  have "validSigs (Add N ks s h sg pk) =
          fmupd h \<lparr>sig = sg, pubKey = pk\<rparr> (fmdrop (victim N ks s) (validSigs s))"
    using nz assms(1) by (simp add: Add_unfold evict_fields)
  then show ?thesis
    using vin assms(3) pos
    by (auto simp: entries_def fcard_finsert_if)
qed

text \<open>Below the capacity, adding a triple that is stored already changes nothing.\<close>

lemma Add_reinsert_below:
  assumes "\<not> evicts s" and "fmlookup (validSigs s) h = Some \<lparr>sig = sg, pubKey = pk\<rparr>"
  shows "Add N ks s h sg pk = s"
proof -
  have "fmupd h \<lparr>sig = sg, pubKey = pk\<rparr> (validSigs s) = validSigs s"
    using assms(2) by (intro fmap_ext) auto
  then show ?thesis using assms(1) by (simp add: Add_unfold)
qed

subsection \<open>Two keys, the larger visited first\<close>

lemma bytes_Compare_replicate_mono:
  "a < b \<Longrightarrow> 0 < bytes_Compare (replicate n a) r \<Longrightarrow> 0 < bytes_Compare (replicate n b) r"
proof (induction n arbitrary: r)
  case 0
  then show ?case by simp
next
  case (Suc n)
  then show ?case by (cases r) (auto split: if_splits)
qed

lemma key_neq_zero: "b \<noteq> 0 \<Longrightarrow> key b \<noteq> zeroEntry"
  by (simp add: key_def zeroEntry_def HashSize_def)

text \<open>
  When the range statement visits the larger of two such keys first, the scan returns it
  whatever the random hash is: either it compares greater, or neither key does and it is
  the fallback.
\<close>

lemma victim_larger_first:
  assumes "a < b"
  shows "victim N [key b, key a] s = key b"
proof -
  have "b \<noteq> 0" using assms by auto
  then have nz: "key b \<noteq> zeroEntry" by (rule key_neq_zero)
  have "\<not> 0 < bytes_Compare (key a) (randHash N s)"
    if "\<not> 0 < bytes_Compare (key b) (randHash N s)"
    using that bytes_Compare_replicate_mono[OF assms, of HashSize "randHash N s"]
    by (auto simp: key_def)
  then show ?thesis
    using nz by (auto simp: victim_def Let_def)
qed

text \<open>
  So on a full cache of capacity 2, adding the smaller key again with its stored entry
  deletes the other entry, with every generator.
\<close>

lemma reinsert_loses_other_entry:
  assumes m: "validSigs s = fmupd (key 1) e1 (fmupd (key 2) e2 fmempty)"
    and c: "maxEntries s = 2"
  shows "evicts s \<and>
         fmlookup (validSigs (Add N [key 2, key 1] s (key 1) (sig e1) (pubKey e1))) (key 2) = None \<and>
         entries (Add N [key 2, key 1] s (key 1) (sig e1) (pubKey e1)) = 1"
proof -
  have ne: "key 1 \<noteq> key 2"
    by (simp add: key_def HashSize_def)
  have n: "entries s = 2"
    using ne by (simp add: entries_def m fcard_finsert_if)
  have ev: "evicts s"
    by (simp add: evicts_def c n)
  have v: "victim N [key 2, key 1] s = key 2"
    by (rule victim_larger_first) simp
  have "validSigs (Add N [key 2, key 1] s (key 1) (sig e1) (pubKey e1)) =
      fmupd (key 1) \<lparr>sig = sig e1, pubKey = pubKey e1\<rparr> (fmdrop (key 2) (validSigs s))"
    using ev by (simp add: Add_unfold evict_fields v evicts_def)
  then show ?thesis
    using ev ne by (simp add: entries_def m fcard_finsert_if)
qed

section \<open>The claims\<close>

subsection \<open>C1: the capacity invariant\<close>

text \<open>
  C1. For every capacity greater than 0 and every sequence of \<open>Add\<close> calls, with arbitrary
  hashes, signatures and public keys, the cache holds at most \<open>maxEntries\<close> entries after
  each call: on a cache that holds at most \<open>maxEntries\<close> entries (the empty cache of
  \<open>NewSigCacheXor\<close> is one), the bound holds after every prefix of the sequence. Each
  call's range statement may visit the keys in any order.
\<close>

theorem capacity_invariant:
  assumes "0 < maxEntries s" and "entries s \<le> unat (maxEntries s)" and "run_ok N s cs"
  shows "\<forall>n\<le>length cs. entries (AddAll N s (take n cs)) \<le> unat (maxEntries s)"
  using assms AddAll_invariant run_ok_take by blast

theorem capacity_invariant_witness:
  "0 < maxEntries (cache [] 1) \<and>
   entries (cache [] 1) \<le> unat (maxEntries (cache [] 1)) \<and>
   run_ok stubNext (cache [] 1) [([], key 1, 1, 1), ([key 1], key 2, 2, 2)] \<and>
   entries (AddAll stubNext (cache [] 1) (take 2 [([], key 1, 1, 1), ([key 1], key 2, 2, 2)]))
     \<le> unat (maxEntries (cache [] 1))"
proof -
  have a: "0 < maxEntries (cache [] 1)"
    by code_simp
  have b: "entries (cache [] 1) \<le> unat (maxEntries (cache [] 1))"
    by code_simp
  have c: "run_ok stubNext (cache [] 1) [([], key 1, 1, 1), ([key 1], key 2, 2, 2)]"
    by code_simp
  show ?thesis
    using a b c capacity_invariant[OF a b c, rule_format, of 2] by simp
qed

subsection \<open>C2: the choice of the victim\<close>

text \<open>
  C2. The random hash is built from four draws, each stored big-endian
  (\<open>randHash_bytes\<close>), and the first key visited that compares greater is the victim
  (\<open>scanLoop_find\<close>). The fallback is not always the first key visited: the scan
  recognises "no fallback yet" by \<open>foundEntry == zeroEntry\<close>, so a zero hash visited first
  is replaced by the next key visited. Here the map holds the zero hash and the hash of 32
  bytes \<open>0x01\<close>, the range statement visits the zero hash first, and the random hash is 32
  bytes \<open>0xff\<close>, so that no key compares greater: the key deleted is the second one
  visited, and the zero hash, visited first, stays in the map.
\<close>

theorem zero_key_fallback:
  "range_order [zeroEntry, key 1] (validSigs (cache [(zeroEntry, 1, 1), (key 1, 2, 2)] 2)) \<and>
   evicts (cache [(zeroEntry, 1, 1), (key 1, 2, 2)] 2) \<and>
   randHash stubNext (cache [(zeroEntry, 1, 1), (key 1, 2, 2)] 2) = replicate 32 255 \<and>
   bytes_Compare zeroEntry (replicate 32 255) \<le> 0 \<and>
   bytes_Compare (key 1) (replicate 32 255) \<le> 0 \<and>
   victim stubNext [zeroEntry, key 1] (cache [(zeroEntry, 1, 1), (key 1, 2, 2)] 2) = key 1 \<and>
   validSigs (Add stubNext [zeroEntry, key 1] (cache [(zeroEntry, 1, 1), (key 1, 2, 2)] 2)
                (key 2) 3 3)
     = validSigs (cache [(zeroEntry, 1, 1), (key 2, 3, 3)] 2)"
  by code_simp

subsection \<open>C3: one entry leaves per eviction\<close>

text \<open>
  C3. On a cache with capacity greater than 0 that holds exactly \<open>maxEntries\<close> entries,
  adding a key that is not in the map removes exactly one entry that was there, adds the
  new one, and leaves exactly \<open>maxEntries\<close> entries. And whenever \<open>Add\<close> runs the
  eviction, the eviction deletes exactly one entry of the map.
\<close>

theorem eviction_count:
  assumes "range_order ks (validSigs s)"
  shows "(0 < maxEntries s \<and> entries s = unat (maxEntries s) \<and> h |\<notin>| fmdom (validSigs s) \<longrightarrow>
            (\<exists>v. v |\<in>| fmdom (validSigs s) \<and>
                 validSigs (Add N ks s h sg pk) =
                   fmupd h \<lparr>sig = sg, pubKey = pk\<rparr> (fmdrop v (validSigs s)) \<and>
                 entries (Add N ks s h sg pk) = unat (maxEntries s))) \<and>
         (evicts s \<longrightarrow>
            (\<exists>v. v |\<in>| fmdom (validSigs s) \<and>
                 validSigs (evict N ks s) = fmdrop v (validSigs s) \<and>
                 entries (evict N ks s) + 1 = entries s))"
proof (intro conjI impI)
  assume ev: "evicts s"
  then have pos: "0 < entries s" by (rule evicts_nonempty)
  have "victim N ks s |\<in>| fmdom (validSigs s)"
    using assms pos by (rule victim_in_dom)
  moreover have "entries (evict N ks s) + 1 = entries s"
    using entries_evict[OF assms pos, of N] pos by simp
  ultimately show "\<exists>v. v |\<in>| fmdom (validSigs s) \<and>
      validSigs (evict N ks s) = fmdrop v (validSigs s) \<and> entries (evict N ks s) + 1 = entries s"
    using evict_fields(1) by blast
next
  assume full: "0 < maxEntries s \<and> entries s = unat (maxEntries s) \<and> h |\<notin>| fmdom (validSigs s)"
  then have nz: "\<not> maxEntries s \<le> 0" by (simp add: word_greater_zero_iff)
  then have ev: "evicts s" using full by (simp add: evicts_def)
  then have pos: "0 < entries s" by (rule evicts_nonempty)
  let ?v = "victim N ks s"
  have vin: "?v |\<in>| fmdom (validSigs s)"
    using assms pos by (rule victim_in_dom)
  have new: "validSigs (Add N ks s h sg pk) =
      fmupd h \<lparr>sig = sg, pubKey = pk\<rparr> (fmdrop ?v (validSigs s))"
    using nz ev by (simp add: Add_unfold evict_fields)
  have "h |\<notin>| fmdom (validSigs s) |-| {|?v|}" using full by simp
  then have "fcard (finsert h (fmdom (validSigs s) |-| {|?v|})) =
      Suc (fcard (fmdom (validSigs s) |-| {|?v|}))"
    by (simp add: fcard_finsert_disjoint)
  moreover have "fcard (fmdom (validSigs s) |-| {|?v|}) = entries s - 1"
    using vin by (simp add: entries_def)
  ultimately have "entries (Add N ks s h sg pk) = entries s"
    using pos by (simp add: entries_def new)
  then show "\<exists>v. v |\<in>| fmdom (validSigs s) \<and>
      validSigs (Add N ks s h sg pk) = fmupd h \<lparr>sig = sg, pubKey = pk\<rparr> (fmdrop v (validSigs s)) \<and>
      entries (Add N ks s h sg pk) = unat (maxEntries s)"
    using vin new full by auto
qed

theorem eviction_count_witness:
  "range_order [key 1, key 2] (validSigs (cache [(key 1, 1, 1), (key 2, 2, 2)] 2)) \<and>
   0 < maxEntries (cache [(key 1, 1, 1), (key 2, 2, 2)] 2) \<and>
   entries (cache [(key 1, 1, 1), (key 2, 2, 2)] 2)
     = unat (maxEntries (cache [(key 1, 1, 1), (key 2, 2, 2)] 2)) \<and>
   key 3 |\<notin>| fmdom (validSigs (cache [(key 1, 1, 1), (key 2, 2, 2)] 2)) \<and>
   evicts (cache [(key 1, 1, 1), (key 2, 2, 2)] 2) \<and>
   entries (Add stubNext [key 1, key 2] (cache [(key 1, 1, 1), (key 2, 2, 2)] 2) (key 3) 3 3) = 2 \<and>
   entries (evict stubNext [key 1, key 2] (cache [(key 1, 1, 1), (key 2, 2, 2)] 2)) + 1 =
     entries (cache [(key 1, 1, 1), (key 2, 2, 2)] 2)"
proof -
  let ?c = "cache [(key 1, 1, 1), (key 2, 2, 2)] 2"
  have r: "range_order [key 1, key 2] (validSigs ?c)"
    by code_simp
  have f: "0 < maxEntries ?c \<and> entries ?c = unat (maxEntries ?c) \<and> key 3 |\<notin>| fmdom (validSigs ?c)"
    by code_simp
  have e: "evicts ?c"
    by code_simp
  have u: "unat (maxEntries ?c) = 2"
    by code_simp
  show ?thesis
    using r f e u eviction_count[OF r, of "key 3" stubNext 3 3] by auto
qed

subsection \<open>C4: the membership test\<close>

text \<open>
  C4. \<open>Exists\<close> returns false when the hash is not in the map. When it is, \<open>Exists\<close>
  returns true exactly when the stored signature and the stored public key both equal the
  supplied ones under their \<open>Equals\<close>; a mismatch is a miss. In every case the cache is
  the same after the call, the stored entry included.
\<close>

theorem Exists_spec:
  "(fmlookup (validSigs s) h = None \<longrightarrow> fst (Exists pkEq sigEq s h sg pk) = False) \<and>
   (\<forall>e. fmlookup (validSigs s) h = Some e \<longrightarrow>
        fst (Exists pkEq sigEq s h sg pk) = (sigEq (sig e) sg \<and> pkEq (pubKey e) pk)) \<and>
   snd (Exists pkEq sigEq s h sg pk) = s"
  by (auto simp: Exists_def split: option.splits)

theorem Exists_spec_witness:
  "fmlookup (validSigs (cache [(key 1, 5, 6)] 2)) (key 2) = None \<and>
   fst (Exists (=) (=) (cache [(key 1, 5, 6)] 2) (key 2) 5 6) = False \<and>
   fmlookup (validSigs (cache [(key 1, 5, 6)] 2)) (key 1) = Some \<lparr>sig = 5, pubKey = 6\<rparr> \<and>
   fst (Exists (=) (=) (cache [(key 1, 5, 6)] 2) (key 1) 5 6) = True \<and>
   fst (Exists (=) (=) (cache [(key 1, 5, 6)] 2) (key 1) 5 7) = False \<and>
   snd (Exists (=) (=) (cache [(key 1, 5, 6)] 2) (key 1) 5 7) = cache [(key 1, 5, 6)] 2"
proof -
  let ?c = "cache [(key 1, 5, 6)] 2"
  have absent: "fmlookup (validSigs ?c) (key 2) = None"
    by code_simp
  have present: "fmlookup (validSigs ?c) (key 1) = Some \<lparr>sig = 5, pubKey = 6\<rparr>"
    by code_simp
  show ?thesis
    using absent present
      Exists_spec[of ?c "key 2" "(=)" "(=)" 5 6]
      Exists_spec[of ?c "key 1" "(=)" "(=)" 5 6]
      Exists_spec[of ?c "key 1" "(=)" "(=)" 5 7]
    by simp
qed

subsection \<open>C5: adding a stored triple again\<close>

text \<open>
  C5. Adding a triple that the cache already holds does not always leave the number of
  entries alone: \<open>Add\<close> tests \<open>len(s.validSigs)+1 > maxEntries\<close> without looking whether
  the key is in the map, so on a full cache it evicts although the map would not grow.
  Here the cache has capacity 2 and holds the hashes of 32 bytes \<open>0x01\<close> and of 32 bytes
  \<open>0x02\<close>; the first is added again with its stored signature and key, and the range
  statement visits the second first. The eviction runs, the generator is drawn from four
  times, the second entry is deleted and one entry is left.
\<close>

theorem reinsert_evicts:
  "fst (Exists (=) (=) (cache [(key 1, 1, 1), (key 2, 2, 2)] 2) (key 1) 1 1) \<and>
   range_order [key 2, key 1] (validSigs (cache [(key 1, 1, 1), (key 2, 2, 2)] 2)) \<and>
   entries (cache [(key 1, 1, 1), (key 2, 2, 2)] 2) = 2 \<and>
   evicts (cache [(key 1, 1, 1), (key 2, 2, 2)] 2) \<and>
   entries (Add stubNext [key 2, key 1] (cache [(key 1, 1, 1), (key 2, 2, 2)] 2) (key 1) 1 1) = 1 \<and>
   fmlookup (validSigs (Add stubNext [key 2, key 1] (cache [(key 1, 1, 1), (key 2, 2, 2)] 2)
                          (key 1) 1 1)) (key 2) = None \<and>
   xorShift (Add stubNext [key 2, key 1] (cache [(key 1, 1, 1), (key 2, 2, 2)] 2) (key 1) 1 1) = 4"
  by code_simp

subsection \<open>C6: capacity 0\<close>

text \<open>
  C6. A cache that \<open>NewSigCacheXor\<close> built with capacity 0 stays as it was built under
  any sequence of \<open>Add\<close> calls: every call returns at once, the map is empty, and
  \<open>Exists\<close> returns false for every hash, signature and public key.
\<close>

theorem zero_capacity:
  assumes "NewSigCacheXor rd nx 0 = Inr c"
  shows "AddAll N c cs = c \<and> validSigs (AddAll N c cs) = fmempty \<and>
         entries (AddAll N c cs) = 0 \<and>
         fst (Exists pkEq sigEq (AddAll N c cs) h sg pk) = False"
proof -
  have c: "validSigs c = fmempty \<and> maxEntries c = 0"
    using assms by (auto simp: NewSigCacheXor_def split: prod.splits option.splits)
  then have "AddAll N c cs = c" by (simp add: AddAll_zero)
  then show ?thesis using c by (simp add: entries_def Exists_def fcard_fempty)
qed

theorem zero_capacity_witness:
  "(NewSigCacheXor stubRead (\<lambda>seed. seed) 0 :: error + (nat, nat, uint64) SigCacheXor)
     = Inr (cache [] 0\<lparr>xorShift := 0x0707070707070707\<rparr>) \<and>
   entries (AddAll stubNext (cache [] 0\<lparr>xorShift := 0x0707070707070707\<rparr>)
              [([], key 1, 1, 1), ([], key 2, 2, 2)]) = 0 \<and>
   fst (Exists (=) (=)
          (AddAll stubNext (cache [] 0\<lparr>xorShift := 0x0707070707070707\<rparr>)
             [([], key 1, 1, 1), ([], key 2, 2, 2)]) (key 1) 1 1) = False"
proof -
  have c: "(NewSigCacheXor stubRead (\<lambda>seed. seed) 0 :: error + (nat, nat, uint64) SigCacheXor)
             = Inr (cache [] 0\<lparr>xorShift := 0x0707070707070707\<rparr>)"
    by code_simp
  show ?thesis
    using c zero_capacity[OF c, of stubNext "[([], key 1, 1, 1), ([], key 2, 2, 2)]"
        "(=)" "(=)" "key 1" 1 1]
    by blast
qed

subsection \<open>C7: construction\<close>

text \<open>
  C7. \<open>NewSigCacheXor\<close> asks the entropy source for one buffer of 8 bytes: its result
  depends on the source only through the outcome of that read. If the read returns an
  error, the constructor returns that error and no cache. \<open>crypto/rand.Read\<close> returns an
  error exactly when it read fewer bytes than the buffer holds, so a short read fails the
  construction too. Otherwise the cache has the capacity that was passed, whatever it is,
  an empty map, and a generator seeded with the 8 bytes read as a big-endian number.
\<close>

theorem NewSigCacheXor_result:
  fixes rd :: "byte list \<Rightarrow> byte list \<times> nat \<times> error option" and nx :: "uint64 \<Rightarrow> 'g"
  assumes "rd (replicate 8 0) = (seed, n, err)" and "(n = 8) = (err = None)"
  shows "(\<forall>e. err = Some e \<longrightarrow>
            (NewSigCacheXor rd nx C :: error + ('sig, 'pk, 'g) SigCacheXor) = Inl e) \<and>
         (n < 8 \<longrightarrow>
            (\<exists>e. (NewSigCacheXor rd nx C :: error + ('sig, 'pk, 'g) SigCacheXor) = Inl e)) \<and>
         (err = None \<longrightarrow>
            (NewSigCacheXor rd nx C :: error + ('sig, 'pk, 'g) SigCacheXor) =
              Inr \<lparr>validSigs = fmempty, maxEntries = C, xorShift = nx (Uint64 seed)\<rparr>) \<and>
         (\<forall>rd'. rd' (replicate 8 0) = rd (replicate 8 0) \<longrightarrow>
            (NewSigCacheXor rd' nx C :: error + ('sig, 'pk, 'g) SigCacheXor) =
              NewSigCacheXor rd nx C)"
proof (intro conjI allI impI)
  fix e assume "err = Some e"
  then show "(NewSigCacheXor rd nx C :: error + ('sig, 'pk, 'g) SigCacheXor) = Inl e"
    using assms(1) by (simp add: NewSigCacheXor_def)
next
  assume "n < 8"
  then obtain e where "err = Some e"
    using assms(2) by (cases err) auto
  then have "(NewSigCacheXor rd nx C :: error + ('sig, 'pk, 'g) SigCacheXor) = Inl e"
    using assms(1) by (simp add: NewSigCacheXor_def)
  then show "\<exists>e. (NewSigCacheXor rd nx C :: error + ('sig, 'pk, 'g) SigCacheXor) = Inl e" ..
next
  assume "err = None"
  then show "(NewSigCacheXor rd nx C :: error + ('sig, 'pk, 'g) SigCacheXor) =
      Inr \<lparr>validSigs = fmempty, maxEntries = C, xorShift = nx (Uint64 seed)\<rparr>"
    using assms(1) by (simp add: NewSigCacheXor_def)
next
  fix rd' :: "byte list \<Rightarrow> byte list \<times> nat \<times> error option"
  assume "rd' (replicate 8 0) = rd (replicate 8 0)"
  then show "(NewSigCacheXor rd' nx C :: error + ('sig, 'pk, 'g) SigCacheXor)
      = NewSigCacheXor rd nx C"
    unfolding NewSigCacheXor_def by (rule arg_cong)
qed

theorem NewSigCacheXor_result_witness:
  "stubRead (replicate 8 0) = (replicate 8 7, 8, None) \<and>
   (NewSigCacheXor stubRead (\<lambda>seed. seed) 5 :: error + (nat, nat, uint64) SigCacheXor)
     = Inr \<lparr>validSigs = fmempty, maxEntries = 5, xorShift = Uint64 (replicate 8 7)\<rparr> \<and>
   failRead (replicate 8 0) = (replicate 8 0, 0, Some (Error ''unexpected EOF'')) \<and>
   (NewSigCacheXor failRead (\<lambda>seed. seed) 5 :: error + (nat, nat, uint64) SigCacheXor)
     = Inl (Error ''unexpected EOF'')"
proof -
  have ok: "stubRead (replicate 8 0) = (replicate 8 7, 8, None)"
    by (simp add: stubRead_def)
  have okc: "((8::nat) = 8) = ((None :: error option) = None)"
    by simp
  have bad: "failRead (replicate 8 0) = (replicate 8 0, 0, Some (Error ''unexpected EOF''))"
    by (simp add: failRead_def)
  have badc: "((0::nat) = 8) = (Some (Error ''unexpected EOF'') = None)"
    by simp
  have good: "(NewSigCacheXor stubRead (\<lambda>seed. seed) 5 :: error + (nat, nat, uint64) SigCacheXor)
      = Inr \<lparr>validSigs = fmempty, maxEntries = 5, xorShift = Uint64 (replicate 8 7)\<rparr>"
    using NewSigCacheXor_result[where ?'sig = nat and ?'pk = nat,
        of stubRead "replicate 8 7" 8 None "\<lambda>seed. seed" 5, OF ok okc]
    by blast
  have fails: "(NewSigCacheXor failRead (\<lambda>seed. seed) 5 :: error + (nat, nat, uint64) SigCacheXor)
      = Inl (Error ''unexpected EOF'')"
    using NewSigCacheXor_result[where ?'sig = nat and ?'pk = nat,
        of failRead "replicate 8 0" 0 "Some (Error ''unexpected EOF'')" "\<lambda>seed. seed" 5,
        OF bad badc]
    by blast
  show ?thesis
    using ok bad good fails by (intro conjI)
qed

subsection \<open>C8: the generator\<close>

text \<open>
  C8, as stated: one eviction advances the generator once. On a full cache of capacity 1
  the eviction runs, and the generator's state after \<open>Add\<close> is not the state after one
  draw: the test generator counts its draws, and the count is 4.
\<close>

theorem generator_advanced_once_counterexample:
  "evicts (cache [(key 1, 1, 1)] 1) \<and>
   xorShift (Add stubNext [key 1] (cache [(key 1, 1, 1)] 1) (key 2) 2 2) \<noteq>
     snd (stubNext (xorShift (cache [(key 1, 1, 1)] 1)))"
  by code_simp

text \<open>
  C8, amended. An \<open>Add\<close> that evicts advances the generator by exactly four draws, one
  after the other; an \<open>Add\<close> that does not evict leaves the generator as it was, and so
  does \<open>Exists\<close>.
\<close>

theorem generator_advance:
  "xorShift (Add N ks s h sg pk) =
     (if evicts s then snd (N (snd (N (snd (N (snd (N (xorShift s)))))))) else xorShift s) \<and>
   xorShift (snd (Exists pkEq sigEq s h sg pk)) = xorShift s"
  by (auto simp: Add_unfold evict_fields randLoop_state evicts_def Exists_def
      split: option.splits)

subsection \<open>C9: the new entry is stored\<close>

text \<open>
  C9. On a cache with capacity at least 1, right after \<open>Add\<close> the hash is in the map and
  maps to exactly the signature and the public key that were passed, whether the call
  evicted or not and whatever it evicted.
\<close>

theorem Add_stores_entry:
  "0 < maxEntries s \<Longrightarrow>
   fmlookup (validSigs (Add N ks s h sg pk)) h = Some \<lparr>sig = sg, pubKey = pk\<rparr>"
  by (simp add: Add_unfold word_greater_zero_iff)

theorem Add_stores_entry_witness:
  "0 < maxEntries (cache [(key 1, 1, 1)] 1) \<and>
   evicts (cache [(key 1, 1, 1)] 1) \<and>
   fmlookup (validSigs (Add stubNext [key 1] (cache [(key 1, 1, 1)] 1) (key 2) 2 3)) (key 2)
     = Some \<lparr>sig = 2, pubKey = 3\<rparr>"
proof -
  have a: "0 < maxEntries (cache [(key 1, 1, 1)] 1)"
    by code_simp
  have b: "evicts (cache [(key 1, 1, 1)] 1)"
    by code_simp
  show ?thesis
    using a b Add_stores_entry[OF a, of stubNext "[key 1]" "key 2" 2 3] by simp
qed

end
